theory Spec2Isabelle
  imports Main
begin

section \<open>Decoded JSON values and the JavaScript operations the dispatcher applies to them\<close>

text \<open>
  A value produced by \<^verbatim>\<open>JSON.parse\<close>. An object keeps its members in the order of the
  text; a later member with the same key overrides an earlier one. Numbers are only
  ever tested for truthiness by the code, so integers stand for them. A JavaScript
  value that may also be \<^verbatim>\<open>undefined\<close> is a \<open>json option\<close>, \<open>None\<close> being
  \<^verbatim>\<open>undefined\<close>.
\<close>

datatype json =
    JNull
  | JBool bool
  | JNum int
  | JStr string
  | JArr "json list"
  | JObj "(string \<times> json) list"

datatype exn = TypeError

text \<open>JavaScript truthiness: \<^verbatim>\<open>null\<close>, \<^verbatim>\<open>false\<close>, \<^verbatim>\<open>0\<close> and the empty string are
  falsy; every array and every object, the empty ones too, is truthy.\<close>

fun truthy :: "json \<Rightarrow> bool" where
  "truthy JNull = False"
| "truthy (JBool b) = b"
| "truthy (JNum n) = (n \<noteq> 0)"
| "truthy (JStr s) = (s \<noteq> [])"
| "truthy (JArr xs) = True"
| "truthy (JObj kvs) = True"

definition js_truthy :: "json option \<Rightarrow> bool" where
  "js_truthy v = (case v of None \<Rightarrow> False | Some j \<Rightarrow> truthy j)"

text \<open>
  Property read \<^verbatim>\<open>v.k\<close>, for the names the dispatcher reads (\<^verbatim>\<open>error\<close>,
  \<^verbatim>\<open>state\<close>, \<^verbatim>\<open>results\<close>, \<^verbatim>\<open>final\<close>, \<^verbatim>\<open>alternatives\<close>, \<^verbatim>\<open>transcript\<close>):
  none of them is a built-in property of a boolean, number, string or array, so there
  the read gives \<^verbatim>\<open>undefined\<close>; on \<^verbatim>\<open>null\<close> it throws.
\<close>

fun js_get :: "json \<Rightarrow> string \<Rightarrow> exn + json option" where
  "js_get JNull k = Inl TypeError"
| "js_get (JObj kvs) k = Inr (map_of (rev kvs) k)"
| "js_get (JBool b) k = Inr None"
| "js_get (JNum n) k = Inr None"
| "js_get (JStr s) k = Inr None"
| "js_get (JArr xs) k = Inr None"

text \<open>Element read \<^verbatim>\<open>v[0]\<close>: out of range it gives \<^verbatim>\<open>undefined\<close>, it does not throw;
  on a string it gives the first character.\<close>

fun js_index0 :: "json \<Rightarrow> exn + json option" where
  "js_index0 JNull = Inl TypeError"
| "js_index0 (JArr xs) = Inr (case xs of [] \<Rightarrow> None | x # _ \<Rightarrow> Some x)"
| "js_index0 (JStr s) = Inr (case s of [] \<Rightarrow> None | c # _ \<Rightarrow> Some (JStr [c]))"
| "js_index0 (JObj kvs) = Inr (map_of (rev kvs) ''0'')"
| "js_index0 (JBool b) = Inr None"
| "js_index0 (JNum n) = Inr None"

section \<open>The session adapter (recognize-stream.js)\<close>

subsection \<open>Inputs, outputs and state\<close>

type_synonym chunk = "nat list"

text \<open>
  An inbound frame as \<^verbatim>\<open>socket.onmessage\<close> classifies it: \<open>Binary\<close> when
  \<^verbatim>\<open>typeof frame.data !== 'string'\<close>, \<open>Malformed t\<close> for a text \<open>t\<close> on which
  \<^verbatim>\<open>JSON.parse\<close> throws, \<open>Json v\<close> for a text that \<^verbatim>\<open>JSON.parse\<close> decodes to \<open>v\<close>.
\<close>

datatype frame = Binary | Malformed string | Json json

text \<open>What \<^verbatim>\<open>socket.send\<close> is given: the stringified opening message (its contents,
  built from the options, play no part below), an audio chunk, or the stringified
  closing message \<^verbatim>\<open>{action: 'stop'}\<close>.\<close>

datatype payload = Opening | Audio chunk | Stop_msg

text \<open>The events raised with \<^verbatim>\<open>self.emit\<close>, with their arguments. \<open>Ev_error m f\<close>
  is the error built by \<^verbatim>\<open>emitError\<close> from the message \<open>m\<close> (for a caught parser
  exception the parser's own message follows \<open>m\<close>) with \<^verbatim>\<open>raw\<close> set to the frame
  \<open>f\<close>; \<open>Ev_transport_error\<close> passes on the error object of \<^verbatim>\<open>socket.onerror\<close>.\<close>

datatype event =
    Ev_connect
  | Ev_listening
  | Ev_message json
  | Ev_results "json option"
  | Ev_result json
  | Ev_error "json option" frame
  | Ev_transport_error
  | Ev_close int string
  | Ev_stop

text \<open>
  Everything the adapter does to the outside, in the order it does it:
  \<open>New_socket\<close> for \<^verbatim>\<open>new W3CWebSocket(...)\<close>, \<open>Send p\<close> for \<^verbatim>\<open>socket.send\<close>,
  \<open>Close_socket\<close> for \<^verbatim>\<open>socket.close()\<close>, \<open>Emit e\<close> for \<^verbatim>\<open>self.emit\<close>,
  \<open>Push v\<close> for a call of \<^verbatim>\<open>self.push\<close> with the value \<open>v\<close> on the readable side
  (pushing \<^verbatim>\<open>null\<close> ends the output, whichever call pushes it; \<open>Push_null\<close> stands
  for that), \<open>After_send\<close> for the call of
  \<^verbatim>\<open>afterSend(callback)\<close>, which acknowledges the write once the transport's buffer
  has drained, and \<open>Uncaught e\<close> for an exception that leaves the running handler,
  after which the handler does nothing more. What the caller's own listeners do when
  an event is raised happens outside the adapter and is not part of the record.
\<close>

datatype action =
    New_socket
  | Send payload
  | Close_socket
  | Emit event
  | Push "json option"
  | After_send
  | Uncaught exn

abbreviation Push_null :: action where
  "Push_null \<equiv> Push (Some JNull)"

text \<open>
  The fields of a \<^verbatim>\<open>RecognizeStream\<close>: the three flags set by the constructor,
  whether \<^verbatim>\<open>this.socket\<close> is set, and the listeners the adapter registers on itself:
  \<open>finish_bound\<close> counts the \<^verbatim>\<open>self.on('finish', self.finish.bind(self))\<close>
  registrations, \<open>once_listening\<close> holds the chunks of the pending
  \<^verbatim>\<open>once('listening', ...)\<close> listeners in registration order, \<open>once_connect\<close> counts
  the pending \<^verbatim>\<open>once('connect', ...)\<close> listeners, each of which sends the closing
  message. The constructor's \<^verbatim>\<open>newListener\<close> hook, which puts the readable side
  into flowing mode when the caller listens for results, touches none of these.
\<close>

record state =
  listening :: bool
  initialized :: bool
  finished :: bool
  socket :: bool
  finish_bound :: nat
  once_listening :: "chunk list"
  once_connect :: nat

definition init :: state where
  "init = \<lparr> listening = False, initialized = False, finished = False, socket = False,
            finish_bound = 0, once_listening = [], once_connect = 0 \<rparr>"

subsection \<open>The methods\<close>

text \<open>\<^verbatim>\<open>initialize\<close>: creates the socket, binds \<^verbatim>\<open>finish\<close> to the \<^verbatim>\<open>finish\<close> event,
  installs the four socket callbacks (they are the functions \<open>onerror\<close>, \<open>onopen\<close>,
  \<open>onclose\<close>, \<open>onmessage\<close> below) and sets \<^verbatim>\<open>initialized\<close>.\<close>

definition initialize :: "state \<Rightarrow> action list \<times> state" where
  "initialize s =
     ([New_socket],
      s\<lparr> socket := True, finish_bound := Suc (finish_bound s), initialized := True \<rparr>)"

text \<open>\<^verbatim>\<open>_write\<close>. The listener registered with \<^verbatim>\<open>once('listening', ...)\<close> is run by
  \<open>emit_listening\<close>. The content type that the first write infers from its chunk
  goes into the options, from which only the contents of the opening message are
  built. With the listening flag set and no socket, \<^verbatim>\<open>self.socket.send\<close> throws.\<close>

definition write_chunk :: "chunk \<Rightarrow> state \<Rightarrow> action list \<times> state" where
  "write_chunk c s =
     (if listening s then
        (if socket s then ([Send (Audio c), After_send], s) else ([Uncaught TypeError], s))
      else
        (let (a, s1) = (if \<not> initialized s then initialize s else ([], s))
         in (a, s1\<lparr> once_listening := once_listening s1 @ [c] \<rparr>)))"

text \<open>\<^verbatim>\<open>self.emit('listening')\<close>: the pending once-listeners run in registration
  order, each sending its chunk and calling \<^verbatim>\<open>afterSend\<close>, and are removed.\<close>

definition emit_listening :: "state \<Rightarrow> action list \<times> state" where
  "emit_listening s =
     (Emit Ev_listening # concat (map (\<lambda>c. [Send (Audio c), After_send]) (once_listening s)),
      s\<lparr> once_listening := [] \<rparr>)"

text \<open>\<^verbatim>\<open>self.emit('connect')\<close>: each pending once-listener sends the closing message.\<close>

definition emit_connect :: "state \<Rightarrow> action list \<times> state" where
  "emit_connect s =
     (Emit Ev_connect # replicate (once_connect s) (Send Stop_msg),
      s\<lparr> once_connect := 0 \<rparr>)"

text \<open>\<^verbatim>\<open>finish\<close>.\<close>

definition finish :: "state \<Rightarrow> action list \<times> state" where
  "finish s =
     (if finished s then ([], s)
      else if socket s then ([Send Stop_msg], s\<lparr> finished := True \<rparr>)
      else ([], s\<lparr> finished := True, once_connect := Suc (once_connect s) \<rparr>))"

text \<open>\<^verbatim>\<open>stop(hard)\<close>; with no socket yet, \<^verbatim>\<open>this.socket.close()\<close> throws.\<close>

definition stop :: "bool \<Rightarrow> state \<Rightarrow> action list \<times> state" where
  "stop hard s =
     (if hard then
        (if socket s then ([Emit Ev_stop, Close_socket], s)
         else ([Emit Ev_stop, Uncaught TypeError], s))
      else (let (a, s1) = finish s in (Emit Ev_stop # a, s1)))"

text \<open>The \<^verbatim>\<open>finish\<close> event of the writable side (end of input): every bound copy of
  \<^verbatim>\<open>finish\<close> runs.\<close>

fun finish_listeners :: "nat \<Rightarrow> state \<Rightarrow> action list \<times> state" where
  "finish_listeners 0 s = ([], s)"
| "finish_listeners (Suc n) s =
     (let (a, s1) = finish s; (b, s2) = finish_listeners n s1 in (a @ b, s2))"

definition on_finish_event :: "state \<Rightarrow> action list \<times> state" where
  "on_finish_event s = finish_listeners (finish_bound s) s"

subsection \<open>The socket callbacks\<close>

definition onerror :: "state \<Rightarrow> action list \<times> state" where
  "onerror s = ([Emit Ev_transport_error], s\<lparr> listening := False \<rparr>)"

definition onopen :: "state \<Rightarrow> action list \<times> state" where
  "onopen s = (let (a, s1) = emit_connect s in (Send Opening # a, s1))"

definition onclose :: "int \<Rightarrow> string \<Rightarrow> state \<Rightarrow> action list \<times> state" where
  "onclose code reason s =
     (if listening s then ([Push_null, Emit (Ev_close code reason)], s\<lparr> listening := False \<rparr>)
      else ([Emit (Ev_close code reason)], s))"

text \<open>\<^verbatim>\<open>emitError(msg, frame, err)\<close>.\<close>

definition emitError :: "json option \<Rightarrow> frame \<Rightarrow> action" where
  "emitError msg f = Emit (Ev_error msg f)"

text \<open>\<^verbatim>\<open>self.push(result.alternatives[0].transcript, 'utf8')\<close>, where
  \<^verbatim>\<open>result.alternatives\<close> is the truthy value \<open>alts\<close>: reading \<^verbatim>\<open>transcript\<close> of
  \<^verbatim>\<open>undefined\<close> or \<^verbatim>\<open>null\<close> throws. The second component is the exception
  thrown, if any.\<close>

definition push_transcript :: "json \<Rightarrow> action list \<times> exn option" where
  "push_transcript alts =
     (case js_index0 alts of
        Inl e \<Rightarrow> ([], Some e)
      | Inr None \<Rightarrow> ([], Some TypeError)
      | Inr (Some a0) \<Rightarrow>
          (case js_get a0 ''transcript'' of
             Inl e \<Rightarrow> ([], Some e)
           | Inr t \<Rightarrow> ([Push t], None)))"

text \<open>The body of the \<^verbatim>\<open>forEach\<close> callback for one result: the \<^verbatim>\<open>result\<close> event,
  then the guard \<^verbatim>\<open>result.final && result.alternatives\<close>, then the push.\<close>

definition each_result :: "json \<Rightarrow> action list \<times> exn option" where
  "each_result r =
     (case js_get r ''final'' of
        Inl e \<Rightarrow> ([Emit (Ev_result r)], Some e)
      | Inr fin \<Rightarrow>
          if js_truthy fin then
            (case js_get r ''alternatives'' of
               Inl e \<Rightarrow> ([Emit (Ev_result r)], Some e)
             | Inr None \<Rightarrow> ([Emit (Ev_result r)], None)
             | Inr (Some alts) \<Rightarrow>
                 if truthy alts then
                   (let (a, x) = push_transcript alts in (Emit (Ev_result r) # a, x))
                 else ([Emit (Ev_result r)], None))
          else ([Emit (Ev_result r)], None))"

text \<open>\<^verbatim>\<open>data.results.forEach(...)\<close> on an array: an exception thrown by the callback
  ends the loop.\<close>

fun forEach_result :: "json list \<Rightarrow> action list \<times> exn option" where
  "forEach_result [] = ([], None)"
| "forEach_result (r # rs) =
     (case each_result r of
        (a, Some e) \<Rightarrow> (a, Some e)
      | (a, None) \<Rightarrow> (let (b, x) = forEach_result rs in (a @ b, x)))"

text \<open>The \<^verbatim>\<open>data.results\<close> branch, for the truthy value \<open>res\<close> of \<^verbatim>\<open>data.results\<close>:
  the \<^verbatim>\<open>results\<close> event, then the loop. A value that is not an array has no
  \<^verbatim>\<open>forEach\<close>, and the call throws.\<close>

definition on_results :: "json option \<Rightarrow> action list" where
  "on_results res =
     (case res of
        Some (JArr rs) \<Rightarrow>
          (case forEach_result rs of
             (a, None) \<Rightarrow> Emit (Ev_results res) # a
           | (a, Some e) \<Rightarrow> Emit (Ev_results res) # a @ [Uncaught e])
      | _ \<Rightarrow> [Emit (Ev_results res), Uncaught TypeError])"

text \<open>The \<^verbatim>\<open>data.state === 'listening'\<close> branch.\<close>

definition on_listening_report :: "state \<Rightarrow> action list \<times> state" where
  "on_listening_report s =
     (if \<not> listening s then emit_listening (s\<lparr> listening := True \<rparr>)
      else ([Push_null, Close_socket], s\<lparr> listening := False \<rparr>))"

text \<open>The chain \<^verbatim>\<open>if (data.error) ... else if (data.state === 'listening') ... else if
  (data.results) ... else ...\<close>, where \<open>err\<close> is the value read for
  \<^verbatim>\<open>data.error\<close>.\<close>

definition dispatch :: "json \<Rightarrow> json option \<Rightarrow> state \<Rightarrow> action list \<times> state" where
  "dispatch dat err s =
     (if js_truthy err then ([emitError err (Json dat)], s)
      else if js_get dat ''state'' = Inr (Some (JStr ''listening'')) then on_listening_report s
      else
        (case js_get dat ''results'' of
           Inl e \<Rightarrow> ([Uncaught e], s)
         | Inr res \<Rightarrow>
             if js_truthy res then (on_results res, s)
             else ([emitError (Some (JStr ''Unrecognised message from server'')) (Json dat)], s)))"

text \<open>\<^verbatim>\<open>socket.onmessage\<close>. Only \<^verbatim>\<open>JSON.parse\<close> is inside the \<^verbatim>\<open>try\<close>: reading
  \<^verbatim>\<open>data.error\<close> of a decoded \<^verbatim>\<open>null\<close> throws out of the handler.\<close>

definition onmessage :: "frame \<Rightarrow> state \<Rightarrow> action list \<times> state" where
  "onmessage f s =
     (case f of
        Binary \<Rightarrow>
          ([emitError (Some (JStr ''Unexpected binary data received from server'')) f], s)
      | Malformed t \<Rightarrow>
          ([emitError (Some (JStr ''Invalid JSON received from service:'')) f], s)
      | Json dat \<Rightarrow>
          (case js_get dat ''error'' of
             Inl e \<Rightarrow> ([Emit (Ev_message dat), Uncaught e], s)
           | Inr err \<Rightarrow> (let (a, s1) = dispatch dat err s in (Emit (Ev_message dat) # a, s1))))"

subsection \<open>A session\<close>

text \<open>
  What can happen to an adapter: the writable machinery calls \<^verbatim>\<open>_write\<close>, the
  writable side raises \<^verbatim>\<open>finish\<close> (end of input), the caller calls \<^verbatim>\<open>stop(hard)\<close>
  or \<^verbatim>\<open>finish()\<close>, and the transport calls one of the four callbacks. The callbacks
  exist only once \<^verbatim>\<open>initialize\<close> has created the socket; before that the transport
  has nothing to call.
\<close>

datatype input =
    Write chunk
  | End_of_input
  | Call_stop bool
  | Call_finish
  | Transport_open
  | Transport_message frame
  | Transport_error
  | Transport_close int string

definition step :: "state \<Rightarrow> input \<Rightarrow> action list \<times> state" where
  "step s i =
     (case i of
        Write c \<Rightarrow> write_chunk c s
      | End_of_input \<Rightarrow> on_finish_event s
      | Call_stop hard \<Rightarrow> stop hard s
      | Call_finish \<Rightarrow> finish s
      | Transport_open \<Rightarrow> if socket s then onopen s else ([], s)
      | Transport_message f \<Rightarrow> if socket s then onmessage f s else ([], s)
      | Transport_error \<Rightarrow> if socket s then onerror s else ([], s)
      | Transport_close code reason \<Rightarrow> if socket s then onclose code reason s else ([], s))"

text \<open>A session is a sequence of inputs; \<open>run\<close> gives everything the adapter did, in
  order, and the state it is left in. An exception that leaves a handler ends that
  handler only: a host that stops at the first uncaught exception sees a prefix of
  the inputs, which is again a session.\<close>

fun run :: "state \<Rightarrow> input list \<Rightarrow> action list \<times> state" where
  "run s [] = ([], s)"
| "run s (i # ins) =
     (let (a, s1) = step s i; (b, s2) = run s1 ins in (a @ b, s2))"

definition trace :: "input list \<Rightarrow> action list" where
  "trace ins = fst (run init ins)"

definition final_state :: "input list \<Rightarrow> state" where
  "final_state ins = snd (run init ins)"

text \<open>The decoded values that take the \<^verbatim>\<open>data.state === 'listening'\<close> branch of the
  chain in \<^verbatim>\<open>socket.onmessage\<close>: reading \<^verbatim>\<open>data.error\<close> does not throw and gives a
  falsy value, and \<^verbatim>\<open>data.state\<close> is the string \<^verbatim>\<open>listening\<close>. The service's
  \<^verbatim>\<open>{"state": "listening"}\<close> is one.\<close>

definition is_listening_report :: "json \<Rightarrow> bool" where
  "is_listening_report dat =
     (case js_get dat ''error'' of
        Inl e \<Rightarrow> False
      | Inr err \<Rightarrow> \<not> js_truthy err \<and> js_get dat ''state'' = Inr (Some (JStr ''listening'')))"

definition listening_report :: json where
  "listening_report = JObj [(''state'', JStr ''listening'')]"

text \<open>The decoded values that take the \<^verbatim>\<open>data.results\<close> branch of the chain, with
  the value \<open>res\<close> read for \<^verbatim>\<open>data.results\<close>: \<^verbatim>\<open>data.error\<close> reads falsy,
  \<^verbatim>\<open>data.state\<close> is not the string \<^verbatim>\<open>listening\<close>, and \<open>res\<close> is truthy.\<close>

definition takes_results_branch :: "json \<Rightarrow> json option \<Rightarrow> bool" where
  "takes_results_branch dat res =
     (case js_get dat ''error'' of
        Inl e \<Rightarrow> False
      | Inr err \<Rightarrow>
          \<not> js_truthy err \<and> js_get dat ''state'' \<noteq> Inr (Some (JStr ''listening''))
          \<and> js_get dat ''results'' = Inr res \<and> js_truthy res)"

text \<open>
  The results update of the service, as \<^verbatim>\<open>JSON.parse\<close> returns it: an object whose
  \<^verbatim>\<open>results\<close> member is an array of results; a result has a boolean \<^verbatim>\<open>final\<close>
  and may have \<^verbatim>\<open>alternatives\<close>, an array of objects with a string
  \<^verbatim>\<open>transcript\<close>. These build results with just the members the dispatcher reads,
  as inputs of the statements about results below.
\<close>

record result =
  final :: bool
  alternatives :: "string list option"

definition alternative_json :: "string \<Rightarrow> json" where
  "alternative_json t = JObj [(''transcript'', JStr t)]"

definition result_json :: "result \<Rightarrow> json" where
  "result_json r =
     JObj ((case alternatives r of
              None \<Rightarrow> []
            | Some ts \<Rightarrow> [(''alternatives'', JArr (map alternative_json ts))])
           @ [(''final'', JBool (final r))])"

definition results_update :: "result list \<Rightarrow> json" where
  "results_update rs = JObj [(''results'', JArr (map result_json rs))]"

section \<open>The event aggregator (result-stream.js)\<close>

text \<open>
  A source stream is known by its identity. The aggregator's fields are the three
  arrays of the constructor; \<open>subscriptions\<close> lists, in order, the calls
  \<^verbatim>\<open>source.on(eventName, this.emit.bind(this, eventName))\<close> the aggregator has made:
  each entry is one listener on that source which re-raises that event on the
  aggregator.
\<close>

type_synonym source = nat

record aggregator =
  errorSources :: "source list"
  allEventSources :: "source list"
  propagatedEvents :: "string list"
  subscriptions :: "(source \<times> string) list"

definition ResultStream :: aggregator where
  "ResultStream = \<lparr> errorSources = [], allEventSources = [], propagatedEvents = [],
                    subscriptions = [] \<rparr>"

definition propagateErrorsFrom :: "source \<Rightarrow> aggregator \<Rightarrow> aggregator" where
  "propagateErrorsFrom src a =
     a\<lparr> errorSources := errorSources a @ [src],
        subscriptions := subscriptions a @
          (if ''error'' \<in> set (propagatedEvents a) then [(src, ''error'')] else []) \<rparr>"

definition propagateEventsFrom :: "source \<Rightarrow> aggregator \<Rightarrow> aggregator" where
  "propagateEventsFrom src a =
     a\<lparr> allEventSources := allEventSources a @ [src],
        subscriptions := subscriptions a @ map (\<lambda>eventName. (src, eventName)) (propagatedEvents a) \<rparr>"

text \<open>\<^verbatim>\<open>propagateEvent\<close>, the \<^verbatim>\<open>newListener\<close> handler: the name is pushed onto
  \<^verbatim>\<open>propagatedEvents\<close> before the sources are chosen and once more after.\<close>

definition propagateEvent :: "string \<Rightarrow> aggregator \<Rightarrow> aggregator" where
  "propagateEvent eventName a =
     (if eventName = ''data'' \<or> eventName = ''end'' then a
      else if eventName \<notin> set (propagatedEvents a) then
        (let sources = (if eventName = ''error'' then errorSources a @ allEventSources a
                        else allEventSources a)
         in a\<lparr> propagatedEvents := propagatedEvents a @ [eventName] @ [eventName],
               subscriptions := subscriptions a @ map (\<lambda>src. (src, eventName)) sources \<rparr>)
      else a)"

text \<open>What a caller does with an aggregator: attach a listener for an event name
  (the aggregator then raises \<^verbatim>\<open>newListener\<close> with that name), or register a
  source in one of the two ways.\<close>

datatype agg_op =
    Add_listener string
  | Propagate_errors_from source
  | Propagate_events_from source

fun agg_step :: "aggregator \<Rightarrow> agg_op \<Rightarrow> aggregator" where
  "agg_step a (Add_listener eventName) = propagateEvent eventName a"
| "agg_step a (Propagate_errors_from src) = propagateErrorsFrom src a"
| "agg_step a (Propagate_events_from src) = propagateEventsFrom src a"

definition agg_run :: "agg_op list \<Rightarrow> aggregator" where
  "agg_run ops = foldl agg_step ResultStream ops"

text \<open>How many times the aggregator raises \<open>eventName\<close> when the source \<open>src\<close>
  raises it once: once for each listener the aggregator has put on that source for
  that name.\<close>

definition reraised :: "aggregator \<Rightarrow> source \<Rightarrow> string \<Rightarrow> nat" where
  "reraised a src eventName = count_list (subscriptions a) (src, eventName)"

section \<open>Sessions of the adapter: general facts\<close>

lemma run_append:
  "run s (xs @ ys) = (let (a, s1) = run s xs; (b, s2) = run s1 ys in (a @ b, s2))"
  by (induction xs arbitrary: s) (simp_all add: split_def Let_def)

text \<open>The defining equations, for evaluating a session on concrete inputs.\<close>

lemmas session_defs =
  trace_def final_state_def init_def step_def write_chunk_def initialize_def finish_def
  stop_def on_finish_event_def onopen_def emit_connect_def onerror_def onclose_def
  onmessage_def dispatch_def emitError_def on_listening_report_def emit_listening_def
  on_results_def each_result_def push_transcript_def js_truthy_def
  is_listening_report_def listening_report_def takes_results_branch_def
  result_json_def alternative_json_def results_update_def split_def Let_def

section \<open>Malformed inbound frames\<close>

text \<open>
  Claim C6. An inbound text frame that is not valid JSON makes the dispatcher raise
  exactly one \<^verbatim>\<open>error\<close> event, carrying the raw frame, and nothing else: no flag and
  no pending listener changes, the transport is not closed, and whatever arrives
  afterwards is handled exactly as if the malformed frame had never come.
\<close>

theorem malformed_json_one_error_session_continues:
  "onmessage (Malformed t) s =
     ([Emit (Ev_error (Some (JStr ''Invalid JSON received from service:'')) (Malformed t))], s)
   \<and> (socket s \<longrightarrow>
        run s (Transport_message (Malformed t) # ins) =
          (Emit (Ev_error (Some (JStr ''Invalid JSON received from service:'')) (Malformed t))
             # fst (run s ins), snd (run s ins)))"
  by (simp add: onmessage_def emitError_def step_def split_def Let_def)

theorem malformed_json_one_error_session_continues_witness:
  "socket (final_state [Write [82, 73, 70, 70]])
   \<and> run (final_state [Write [82, 73, 70, 70]])
         [Transport_message (Malformed ''{''), Transport_open] =
       ([Emit (Ev_error (Some (JStr ''Invalid JSON received from service:'')) (Malformed ''{'')),
         Send Opening, Emit Ev_connect],
        final_state [Write [82, 73, 70, 70]])"
  using malformed_json_one_error_session_continues
          [of "''{''" "final_state [Write [82, 73, 70, 70]]" "[Transport_open]"]
  by (simp add: final_state_def init_def step_def write_chunk_def initialize_def onopen_def
        emit_connect_def split_def Let_def)

section \<open>Closing the input before the transport is open\<close>

text \<open>
  Claim C7. The first \<^verbatim>\<open>finish\<close> should send the stop message at once when the
  transport has reported open and otherwise wait for the \<^verbatim>\<open>connect\<close> event.
  \<^verbatim>\<open>finish\<close> tests \<^verbatim>\<open>self.socket\<close>, which is set as soon as the first write has
  created the socket. After one write and before the transport has opened, a call of
  \<^verbatim>\<open>finish\<close> therefore hands the stop message to the transport at once: nothing is
  left waiting for \<^verbatim>\<open>connect\<close>, and when the transport then opens, the opening
  message goes out after the stop message and no stop message follows it.
\<close>

theorem finish_while_connecting_sends_stop_at_once:
  "trace [Write [82, 73, 70, 70], Call_finish] = [New_socket, Send Stop_msg]
   \<and> once_connect (final_state [Write [82, 73, 70, 70], Call_finish]) = 0
   \<and> trace [Write [82, 73, 70, 70], Call_finish, Transport_open] =
       [New_socket, Send Stop_msg, Send Opening, Emit Ev_connect]"
  by (simp add: trace_def final_state_def init_def step_def write_chunk_def initialize_def
        finish_def onopen_def emit_connect_def split_def Let_def)

section \<open>The aggregator: how often an event is wired\<close>

text \<open>
  Claim C8. Each event name should be wired at most once per source. When a listener
  for \<^verbatim>\<open>close\<close> is attached first and a source is registered with
  \<^verbatim>\<open>propagateEventsFrom\<close> afterwards, the name stands twice in
  \<^verbatim>\<open>propagatedEvents\<close>, the source gets two forwarding listeners for \<^verbatim>\<open>close\<close>,
  and one \<^verbatim>\<open>close\<close> raised by the source is raised twice on the aggregator.
\<close>

theorem listener_before_source_wires_twice:
  "propagatedEvents (agg_run [Add_listener ''close'']) = [''close'', ''close'']
   \<and> subscriptions (agg_run [Add_listener ''close'', Propagate_events_from 0]) =
       [(0, ''close''), (0, ''close'')]
   \<and> reraised (agg_run [Add_listener ''close'', Propagate_events_from 0]) 0 ''close'' = 2"
  by (simp add: agg_run_def ResultStream_def propagateEvent_def propagateEventsFrom_def
        reraised_def Let_def)

section \<open>No audio before the service listens\<close>

subsection \<open>The results branch sends nothing and raises no \<^verbatim>\<open>listening\<close> event\<close>

lemma push_transcript_no_send: "Send p \<notin> set (fst (push_transcript alts))"
  by (simp add: push_transcript_def split: sum.splits option.splits)

lemma push_transcript_no_listening: "Emit Ev_listening \<notin> set (fst (push_transcript alts))"
  by (simp add: push_transcript_def split: sum.splits option.splits)

lemma each_result_no_send: "Send p \<notin> set (fst (each_result r))"
  using push_transcript_no_send [of p]
  by (simp add: each_result_def split_def Let_def split: sum.splits option.splits)

lemma each_result_no_listening: "Emit Ev_listening \<notin> set (fst (each_result r))"
  using push_transcript_no_listening
  by (simp add: each_result_def split_def Let_def split: sum.splits option.splits)

lemma forEach_result_no_send: "Send p \<notin> set (fst (forEach_result rs))"
proof (induction rs)
  case Nil
  show ?case by simp
next
  case (Cons r rs)
  then show ?case
    using each_result_no_send [of p r]
    by (cases "each_result r") (auto simp: split_def Let_def split: option.splits)
qed

lemma forEach_result_no_listening: "Emit Ev_listening \<notin> set (fst (forEach_result rs))"
proof (induction rs)
  case Nil
  show ?case by simp
next
  case (Cons r rs)
  then show ?case
    using each_result_no_listening [of r]
    by (cases "each_result r") (auto simp: split_def Let_def split: option.splits)
qed

lemma on_results_actions:
  "set (on_results res) \<subseteq>
     {Emit (Ev_results res), Uncaught TypeError} \<union> (\<Union>rs. set (fst (forEach_result rs)))"
proof (cases res)
  case None
  then show ?thesis by (simp add: on_results_def)
next
  case (Some j)
  show ?thesis
  proof (cases j)
    case (JArr rs)
    obtain a x where f: "forEach_result rs = (a, x)" by (cases "forEach_result rs")
    then have "set a \<subseteq> (\<Union>rs. set (fst (forEach_result rs)))"
      by (metis UNIV_I UN_upper fst_conv)
    with f Some JArr show ?thesis
      by (cases x) (auto simp: on_results_def intro: exn.exhaust)
  qed (simp_all add: on_results_def Some)
qed

lemma on_results_no_send: "Send p \<notin> set (on_results res)"
  using on_results_actions [of res] forEach_result_no_send [of p] by auto

lemma on_results_no_listening: "Emit Ev_listening \<notin> set (on_results res)"
  using on_results_actions [of res] forEach_result_no_listening by auto

subsection \<open>One input, while the adapter is not listening\<close>

lemma finish_quiet:
  "finish s = (a, s1) \<Longrightarrow> set a \<subseteq> {Send Stop_msg} \<and> listening s1 = listening s"
  by (auto simp: finish_def split: if_splits)

lemma finish_listeners_quiet:
  "finish_listeners n s = (a, s1) \<Longrightarrow> set a \<subseteq> {Send Stop_msg} \<and> listening s1 = listening s"
proof (induction n arbitrary: s a s1)
  case 0
  then show ?case by simp
next
  case (Suc n)
  obtain b s2 where f: "finish s = (b, s2)" by (cases "finish s")
  obtain c s3 where g: "finish_listeners n s2 = (c, s3)" by (cases "finish_listeners n s2")
  from Suc.prems f g have "a = b @ c" "s1 = s3" by simp_all
  with finish_quiet [OF f] Suc.IH [OF g] show ?case by auto
qed

lemma step_not_listening:
  assumes "\<not> listening s" and "step s i = (a, s1)"
  shows "Send (Audio c) \<notin> set (takeWhile (\<lambda>x. x \<noteq> Emit Ev_listening) a)
         \<and> (Emit Ev_listening \<in> set a \<or> \<not> listening s1)"
proof (cases i)
  case (Write c')
  with assms show ?thesis
    by (auto simp: step_def write_chunk_def initialize_def split: if_splits)
next
  case End_of_input
  with assms finish_listeners_quiet [of "finish_bound s" s a s1] have
    "set a \<subseteq> {Send Stop_msg}" "\<not> listening s1"
    by (simp_all add: step_def on_finish_event_def)
  then show ?thesis by (auto dest!: set_takeWhileD)
next
  case (Call_stop hard)
  show ?thesis
  proof (cases hard)
    case True
    with Call_stop assms show ?thesis by (auto simp: step_def stop_def split: if_splits)
  next
    case False
    obtain b s2 where f: "finish s = (b, s2)" by (cases "finish s")
    with False Call_stop assms have "a = Emit Ev_stop # b" "s1 = s2"
      by (simp_all add: step_def stop_def)
    with finish_quiet [OF f] assms(1) show ?thesis by (auto dest!: set_takeWhileD)
  qed
next
  case Call_finish
  with assms finish_quiet [of s a s1] have "set a \<subseteq> {Send Stop_msg}" "\<not> listening s1"
    by (simp_all add: step_def)
  then show ?thesis by (auto dest!: set_takeWhileD)
next
  case Transport_open
  with assms show ?thesis
    by (auto simp: step_def onopen_def emit_connect_def split: if_splits dest!: set_takeWhileD)
next
  case (Transport_message f)
  show ?thesis
  proof (cases "socket s")
    case False
    with Transport_message assms show ?thesis by (simp add: step_def)
  next
    case True
    with Transport_message assms have m: "onmessage f s = (a, s1)" by (simp add: step_def)
    show ?thesis
    proof (cases f)
      case Binary
      with m assms(1) show ?thesis by (auto simp: onmessage_def emitError_def)
    next
      case (Malformed t)
      with m assms(1) show ?thesis by (auto simp: onmessage_def emitError_def)
    next
      case (Json dat)
      show ?thesis
      proof (cases "js_get dat ''error''")
        case (Inl e)
        with Json m assms(1) show ?thesis by (auto simp: onmessage_def)
      next
        case (Inr err)
        obtain b s2 where d: "dispatch dat err s = (b, s2)" by (cases "dispatch dat err s")
        with Inr Json m have a: "a = Emit (Ev_message dat) # b" "s1 = s2"
          by (simp_all add: onmessage_def)
        from d assms(1) on_results_no_send [of "Audio c"]
        have "Send (Audio c) \<notin> set (takeWhile (\<lambda>x. x \<noteq> Emit Ev_listening) b)
              \<and> (Emit Ev_listening \<in> set b \<or> \<not> listening s2)"
          by (auto simp: dispatch_def emitError_def on_listening_report_def emit_listening_def
                split: if_splits sum.splits dest: set_takeWhileD)
        with a show ?thesis by simp
      qed
    qed
  qed
next
  case Transport_error
  with assms show ?thesis by (auto simp: step_def onerror_def split: if_splits)
next
  case (Transport_close code reason)
  with assms show ?thesis by (auto simp: step_def onclose_def split: if_splits)
qed


lemma run_not_listening:
  "\<not> listening s \<Longrightarrow>
     Send (Audio c) \<notin> set (takeWhile (\<lambda>x. x \<noteq> Emit Ev_listening) (fst (run s ins)))"
proof (induction ins arbitrary: s)
  case Nil
  show ?case by simp
next
  case (Cons i ins)
  obtain a s1 where st: "step s i = (a, s1)" by (cases "step s i")
  obtain b s2 where r: "run s1 ins = (b, s2)" by (cases "run s1 ins")
  have ab: "fst (run s (i # ins)) = a @ b" using st r by simp
  from step_not_listening [OF Cons.prems st, of c]
  have a1: "Send (Audio c) \<notin> set (takeWhile (\<lambda>x. x \<noteq> Emit Ev_listening) a)"
    and a2: "Emit Ev_listening \<in> set a \<or> \<not> listening s1" by simp_all
  show ?case
  proof (cases "Emit Ev_listening \<in> set a")
    case True
    then have "takeWhile (\<lambda>x. x \<noteq> Emit Ev_listening) (a @ b)
               = takeWhile (\<lambda>x. x \<noteq> Emit Ev_listening) a"
      by (simp add: takeWhile_append1)
    with a1 ab show ?thesis by simp
  next
    case False
    then have t: "takeWhile (\<lambda>x. x \<noteq> Emit Ev_listening) (a @ b)
               = a @ takeWhile (\<lambda>x. x \<noteq> Emit Ev_listening) b"
      by (intro takeWhile_append2) auto
    from False have "takeWhile (\<lambda>x. x \<noteq> Emit Ev_listening) a = a"
      by (intro takeWhile_eq_all_conv [THEN iffD2]) auto
    with a1 have "Send (Audio c) \<notin> set a" by simp
    moreover from False a2 have "\<not> listening s1" by simp
    from Cons.IH [OF this, of ] r
    have "Send (Audio c) \<notin> set (takeWhile (\<lambda>x. x \<noteq> Emit Ev_listening) b)" by simp
    ultimately show ?thesis using t ab by simp
  qed
qed


subsection \<open>Whole sessions\<close>

lemma is_listening_report_onmessage:
  "is_listening_report dat \<Longrightarrow>
     onmessage (Json dat) s =
       (let (a, s1) = on_listening_report s in (Emit (Ev_message dat) # a, s1))"
  by (auto simp: is_listening_report_def onmessage_def dispatch_def split: sum.splits)

lemma listening_event_only_on_report:
  assumes "Emit Ev_listening \<in> set (fst (step s i))"
  shows "\<exists>dat. i = Transport_message (Json dat) \<and> is_listening_report dat"
proof (cases i)
  case (Write c')
  with assms show ?thesis
    by (auto simp: step_def write_chunk_def initialize_def split: if_splits)
next
  case End_of_input
  obtain a s1 where "finish_listeners (finish_bound s) s = (a, s1)"
    by (cases "finish_listeners (finish_bound s) s")
  with finish_listeners_quiet [OF this] End_of_input assms show ?thesis
    by (auto simp: step_def on_finish_event_def)
next
  case (Call_stop hard)
  obtain b s2 where f: "finish s = (b, s2)" by (cases "finish s")
  with finish_quiet [OF f] Call_stop assms show ?thesis
    by (auto simp: step_def stop_def split: if_splits)
next
  case Call_finish
  obtain b s2 where f: "finish s = (b, s2)" by (cases "finish s")
  with finish_quiet [OF f] Call_finish assms show ?thesis
    by (auto simp: step_def)
next
  case Transport_open
  with assms show ?thesis
    by (auto simp: step_def onopen_def emit_connect_def split: if_splits)
next
  case (Transport_message f)
  with assms have m: "Emit Ev_listening \<in> set (fst (onmessage f s))"
    by (auto simp: step_def split: if_splits)
  show ?thesis
  proof (cases f)
    case Binary
    with m show ?thesis by (simp add: onmessage_def emitError_def)
  next
    case (Malformed t)
    with m show ?thesis by (simp add: onmessage_def emitError_def)
  next
    case (Json dat)
    have "is_listening_report dat"
    proof (rule ccontr)
      assume n: "\<not> is_listening_report dat"
      show False
      proof (cases "js_get dat ''error''")
        case (Inl e)
        with Json m show False by (simp add: onmessage_def)
      next
        case (Inr err)
        with n Json m on_results_no_listening show False
          by (auto simp: onmessage_def dispatch_def emitError_def is_listening_report_def
                split_def split: if_splits sum.splits)
      qed
    qed
    with Json Transport_message show ?thesis by simp
  qed
next
  case Transport_error
  with assms show ?thesis by (auto simp: step_def onerror_def split: if_splits)
next
  case (Transport_close code reason)
  with assms show ?thesis by (auto simp: step_def onclose_def split: if_splits)
qed

text \<open>
  Claim C1. In every session, no audio chunk is handed to the transport before the
  adapter has raised its first \<^verbatim>\<open>listening\<close> event, and that event is raised only
  while handling a listening report of the service. A write that finds the listening
  flag false sends nothing: it creates the socket if the adapter is not yet
  initialized, and leaves the chunk with a once-listener for \<^verbatim>\<open>listening\<close>. The
  next listening report raises \<^verbatim>\<open>listening\<close> and only then sends the waiting
  chunks, in the order they were written.
\<close>

theorem no_audio_before_first_listening:
  "Send (Audio c) \<notin> set (takeWhile (\<lambda>x. x \<noteq> Emit Ev_listening) (trace ins))
   \<and> (Emit Ev_listening \<in> set (fst (step s i)) \<longrightarrow>
        (\<exists>dat. i = Transport_message (Json dat) \<and> is_listening_report dat))
   \<and> (\<not> listening s \<longrightarrow>
        (\<forall>p. Send p \<notin> set (fst (write_chunk c s)))
        \<and> (New_socket \<in> set (fst (write_chunk c s)) \<longleftrightarrow> \<not> initialized s)
        \<and> \<not> listening (snd (write_chunk c s))
        \<and> once_listening (snd (write_chunk c s)) = once_listening s @ [c])
   \<and> (\<not> listening s \<and> is_listening_report dat \<longrightarrow>
        onmessage (Json dat) s =
          (Emit (Ev_message dat) # Emit Ev_listening
             # concat (map (\<lambda>c. [Send (Audio c), After_send]) (once_listening s)),
           s\<lparr> listening := True, once_listening := [] \<rparr>))"
proof (intro conjI)
  show "Send (Audio c) \<notin> set (takeWhile (\<lambda>x. x \<noteq> Emit Ev_listening) (trace ins))"
    unfolding trace_def by (rule run_not_listening) (simp add: init_def)
  show "Emit Ev_listening \<in> set (fst (step s i)) \<longrightarrow>
        (\<exists>dat. i = Transport_message (Json dat) \<and> is_listening_report dat)"
    using listening_event_only_on_report by blast
  show "\<not> listening s \<longrightarrow>
        (\<forall>p. Send p \<notin> set (fst (write_chunk c s)))
        \<and> (New_socket \<in> set (fst (write_chunk c s)) \<longleftrightarrow> \<not> initialized s)
        \<and> \<not> listening (snd (write_chunk c s))
        \<and> once_listening (snd (write_chunk c s)) = once_listening s @ [c]"
    by (simp add: write_chunk_def initialize_def)
  show "\<not> listening s \<and> is_listening_report dat \<longrightarrow>
        onmessage (Json dat) s =
          (Emit (Ev_message dat) # Emit Ev_listening
             # concat (map (\<lambda>c. [Send (Audio c), After_send]) (once_listening s)),
           s\<lparr> listening := True, once_listening := [] \<rparr>)"
    by (simp add: is_listening_report_onmessage on_listening_report_def emit_listening_def)
qed

theorem no_audio_before_first_listening_witness:
  "\<not> listening (final_state [Write [82, 73]])
   \<and> is_listening_report listening_report
   \<and> Emit Ev_listening \<in> set (fst (step (final_state [Write [82, 73]])
                                    (Transport_message (Json listening_report))))
   \<and> fst (write_chunk [70, 70] (final_state [Write [82, 73]])) = []
   \<and> once_listening (snd (write_chunk [70, 70] (final_state [Write [82, 73]]))) = [[82, 73], [70, 70]]
   \<and> fst (onmessage (Json listening_report) (final_state [Write [82, 73]])) =
       [Emit (Ev_message listening_report), Emit Ev_listening, Send (Audio [82, 73]), After_send]
   \<and> Send (Audio [82, 73]) \<notin> set (takeWhile (\<lambda>x. x \<noteq> Emit Ev_listening)
         (trace [Write [82, 73], Transport_open, Transport_message (Json listening_report)]))"
  using no_audio_before_first_listening
          [of "[82, 73]" "[Write [82, 73], Transport_open, Transport_message (Json listening_report)]"
              "final_state [Write [82, 73]]" "Transport_message (Json listening_report)"
              listening_report]
        no_audio_before_first_listening
          [of "[70, 70]" "[]" "final_state [Write [82, 73]]" "Transport_message (Json listening_report)"
              listening_report]
  by (simp add: session_defs)


section \<open>The stop message is sent at most once\<close>

text \<open>Every input keeps the number of stop messages it sends within what the state
  still allows: one for each pending once-listener for \<^verbatim>\<open>connect\<close>, and one more
  while the finished flag is not set.\<close>

lemma count_list_replicate: "count_list (replicate n x) y = (if x = y then n else 0)"
  by (induction n) auto

lemma finish_budget:
  "finish s = (a, s1) \<Longrightarrow>
     count_list a (Send Stop_msg) + (once_connect s1 + (if finished s1 then 0 else 1))
       \<le> once_connect s + (if finished s then 0 else 1)"
  by (auto simp: finish_def split: if_splits)

lemma finish_listeners_budget:
  "finish_listeners n s = (a, s1) \<Longrightarrow>
     count_list a (Send Stop_msg) + (once_connect s1 + (if finished s1 then 0 else 1))
       \<le> once_connect s + (if finished s then 0 else 1)"
proof (induction n arbitrary: s a s1)
  case 0
  then show ?case by simp
next
  case (Suc n)
  obtain b s2 where f: "finish s = (b, s2)" by (cases "finish s")
  obtain c s3 where g: "finish_listeners n s2 = (c, s3)" by (cases "finish_listeners n s2")
  from Suc.prems f g have "a = b @ c" "s1 = s3" by simp_all
  with finish_budget [OF f] Suc.IH [OF g] show ?case by simp
qed

lemma on_results_no_stop: "count_list (on_results res) (Send Stop_msg) = 0"
  using on_results_no_send [of Stop_msg res] by (simp add: count_list_0_iff)

lemma onmessage_budget:
  "onmessage f s = (a, s1) \<Longrightarrow>
     count_list a (Send Stop_msg) = 0 \<and> once_connect s1 = once_connect s \<and> finished s1 = finished s"
proof (cases f)
  case (Json dat)
  assume m: "onmessage f s = (a, s1)"
  show ?thesis
  proof (cases "js_get dat ''error''")
    case (Inl e)
    with Json m show ?thesis by (auto simp: onmessage_def)
  next
    case (Inr err)
    with Json m on_results_no_stop show ?thesis
      by (auto simp: onmessage_def dispatch_def emitError_def on_listening_report_def
            emit_listening_def split_def count_list_0_iff split: if_splits sum.splits)
  qed
qed (auto simp: onmessage_def emitError_def)

lemma step_budget:
  assumes "step s i = (a, s1)"
  shows "count_list a (Send Stop_msg) + (once_connect s1 + (if finished s1 then 0 else 1))
           \<le> once_connect s + (if finished s then 0 else 1)"
proof (cases i)
  case (Write c)
  with assms show ?thesis
    by (auto simp: step_def write_chunk_def initialize_def split: if_splits)
next
  case End_of_input
  with assms finish_listeners_budget [of "finish_bound s" s a s1] show ?thesis
    by (simp add: step_def on_finish_event_def)
next
  case (Call_stop hard)
  show ?thesis
  proof (cases hard)
    case True
    with Call_stop assms show ?thesis by (auto simp: step_def stop_def split: if_splits)
  next
    case False
    obtain b s2 where f: "finish s = (b, s2)" by (cases "finish s")
    with False Call_stop assms have "a = Emit Ev_stop # b" "s1 = s2"
      by (simp_all add: step_def stop_def)
    with finish_budget [OF f] show ?thesis by simp
  qed
next
  case Call_finish
  with assms finish_budget [of s a s1] show ?thesis by (simp add: step_def)
next
  case Transport_open
  with assms show ?thesis
    by (auto simp: step_def onopen_def emit_connect_def count_list_replicate split: if_splits)
next
  case (Transport_message f)
  with assms onmessage_budget [of f s a s1] show ?thesis
    by (auto simp: step_def split: if_splits)
next
  case Transport_error
  with assms show ?thesis by (auto simp: step_def onerror_def split: if_splits)
next
  case (Transport_close code reason)
  with assms show ?thesis by (auto simp: step_def onclose_def split: if_splits)
qed

lemma run_budget:
  "count_list (fst (run s ins)) (Send Stop_msg) \<le> once_connect s + (if finished s then 0 else 1)"
proof (induction ins arbitrary: s)
  case Nil
  show ?case by simp
next
  case (Cons i ins)
  obtain a s1 where st: "step s i = (a, s1)" by (cases "step s i")
  obtain b s2 where r: "run s1 ins = (b, s2)" by (cases "run s1 ins")
  have "count_list (fst (run s (i # ins))) (Send Stop_msg)
          = count_list a (Send Stop_msg) + count_list b (Send Stop_msg)"
    using st r by simp
  also have "\<dots> \<le> count_list a (Send Stop_msg) + (once_connect s1 + (if finished s1 then 0 else 1))"
    using Cons.IH [of s1] r by simp
  also have "\<dots> \<le> once_connect s + (if finished s then 0 else 1)"
    by (rule step_budget [OF st])
  finally show ?case .
qed

lemma finish_listeners_finished:
  "finished s \<Longrightarrow> finish_listeners n s = ([], s)"
  by (induction n) (simp_all add: finish_def)

text \<open>
  Claim C2. In every session, whatever the combination of end of input, graceful
  \<^verbatim>\<open>stop\<close> calls and \<^verbatim>\<open>finish\<close> calls, the stop message is handed to the transport
  at most once. Once the finished flag is set, \<^verbatim>\<open>finish\<close> does nothing, the
  \<^verbatim>\<open>finish\<close> event does nothing, and a graceful \<^verbatim>\<open>stop\<close> only raises its
  \<^verbatim>\<open>stop\<close> event.
\<close>

theorem stop_frame_sent_at_most_once:
  "count_list (trace ins) (Send Stop_msg) \<le> 1
   \<and> (finished s \<longrightarrow>
        finish s = ([], s) \<and> on_finish_event s = ([], s) \<and> stop False s = ([Emit Ev_stop], s))"
proof (intro conjI impI)
  show "count_list (trace ins) (Send Stop_msg) \<le> 1"
    using run_budget [of init ins] by (simp add: trace_def init_def)
next
  assume "finished s"
  then show "finish s = ([], s)" by (simp add: finish_def)
  from \<open>finished s\<close> show "on_finish_event s = ([], s)"
    by (simp add: on_finish_event_def finish_listeners_finished)
  from \<open>finished s\<close> show "stop False s = ([Emit Ev_stop], s)"
    by (simp add: stop_def finish_def)
qed

theorem stop_frame_sent_at_most_once_witness:
  "finished (final_state [Write [82], Transport_open, Call_stop False])
   \<and> count_list (trace [Write [82], Transport_open, Call_stop False, End_of_input, Call_finish,
                         Call_stop False]) (Send Stop_msg) = 1
   \<and> finish (final_state [Write [82], Transport_open, Call_stop False]) =
       ([], final_state [Write [82], Transport_open, Call_stop False])"
  using stop_frame_sent_at_most_once
          [of "[Write [82], Transport_open, Call_stop False, End_of_input, Call_finish,
                Call_stop False]"
              "final_state [Write [82], Transport_open, Call_stop False]"]
  by (simp add: session_defs)


section \<open>The opening message\<close>

lemma fst_run_Cons:
  "fst (run s (i # ins)) = fst (step s i) @ fst (run (snd (step s i)) ins)"
  by (simp add: split_def Let_def)

lemma snd_run_Cons:
  "snd (run s (i # ins)) = snd (run (snd (step s i)) ins)"
  by (simp add: split_def Let_def)

lemma onmessage_no_send_opening: "Send Opening \<notin> set (fst (onmessage f s))"
proof (cases f)
  case (Json dat)
  show ?thesis
  proof (cases "js_get dat ''error''")
    case (Inl e)
    with Json show ?thesis by (simp add: onmessage_def)
  next
    case (Inr err)
    with Json on_results_no_send [of Opening] show ?thesis
      by (auto simp: onmessage_def dispatch_def emitError_def on_listening_report_def
            emit_listening_def split_def split: if_splits sum.splits)
  qed
qed (simp_all add: onmessage_def emitError_def)

lemma step_send_opening:
  assumes "Send Opening \<in> set (fst (step s i))"
  shows "i = Transport_open \<and> socket s"
proof (cases i)
  case (Write c)
  with assms show ?thesis
    by (auto simp: step_def write_chunk_def initialize_def split: if_splits)
next
  case End_of_input
  obtain a s1 where "finish_listeners (finish_bound s) s = (a, s1)"
    by (cases "finish_listeners (finish_bound s) s")
  with finish_listeners_quiet [OF this] End_of_input assms show ?thesis
    by (auto simp: step_def on_finish_event_def)
next
  case (Call_stop hard)
  obtain b s2 where f: "finish s = (b, s2)" by (cases "finish s")
  with finish_quiet [OF f] Call_stop assms show ?thesis
    by (auto simp: step_def stop_def split: if_splits)
next
  case Call_finish
  obtain b s2 where f: "finish s = (b, s2)" by (cases "finish s")
  with finish_quiet [OF f] Call_finish assms show ?thesis
    by (auto simp: step_def)
next
  case Transport_open
  with assms show ?thesis by (auto simp: step_def split: if_splits)
next
  case (Transport_message f)
  with assms onmessage_no_send_opening [of f s] show ?thesis
    by (auto simp: step_def split: if_splits)
next
  case Transport_error
  with assms show ?thesis by (auto simp: step_def onerror_def split: if_splits)
next
  case (Transport_close code reason)
  with assms show ?thesis by (auto simp: step_def onclose_def split: if_splits)
qed

lemma run_no_opening:
  "Transport_open \<notin> set ins \<Longrightarrow> Send Opening \<notin> set (fst (run s ins))"
proof (induction ins arbitrary: s)
  case Nil
  show ?case by simp
next
  case (Cons i ins)
  from Cons.prems have "i \<noteq> Transport_open" by auto
  with step_send_opening [of s i] have "Send Opening \<notin> set (fst (step s i))" by blast
  moreover from Cons have "Send Opening \<notin> set (fst (run (snd (step s i)) ins))" by simp
  ultimately show ?case by (simp add: fst_run_Cons del: run.simps(2))
qed

lemma run_opening_count:
  "count_list (fst (run s ins)) (Send Opening) \<le> count_list ins Transport_open"
proof (induction ins arbitrary: s)
  case Nil
  show ?case by simp
next
  case (Cons i ins)
  have "count_list (fst (step s i)) (Send Opening) \<le> (if i = Transport_open then 1 else 0)"
  proof (cases "i = Transport_open")
    case True
    then show ?thesis
      by (simp add: step_def onopen_def emit_connect_def count_list_replicate)
  next
    case False
    with step_send_opening [of s i] have "Send Opening \<notin> set (fst (step s i))" by blast
    then show ?thesis by (simp add: count_list_0_iff)
  qed
  with Cons.IH [of "snd (step s i)"] show ?case
    by (auto simp: fst_run_Cons simp del: run.simps(2))
qed

lemma finish_socket: "finish s = (a, s1) \<Longrightarrow> socket s1 = socket s"
  by (auto simp: finish_def split: if_splits)

lemma finish_listeners_socket: "finish_listeners n s = (a, s1) \<Longrightarrow> socket s1 = socket s"
proof (induction n arbitrary: s a s1)
  case 0
  then show ?case by simp
next
  case (Suc n)
  obtain b s2 where f: "finish s = (b, s2)" by (cases "finish s")
  obtain c s3 where g: "finish_listeners n s2 = (c, s3)" by (cases "finish_listeners n s2")
  from Suc.prems f g have "s1 = s3" by simp
  with finish_socket [OF f] Suc.IH [OF g] show ?case by simp
qed

lemma onmessage_socket: "socket (snd (onmessage f s)) = socket s"
  by (auto simp: onmessage_def dispatch_def emitError_def on_listening_report_def
        emit_listening_def split_def split: frame.splits if_splits sum.splits)

lemma step_socket: "socket s \<Longrightarrow> socket (snd (step s i))"
proof (cases i)
  case End_of_input
  assume "socket s"
  with End_of_input finish_listeners_socket [of "finish_bound s" s] show ?thesis
    by (cases "finish_listeners (finish_bound s) s") (simp add: step_def on_finish_event_def)
qed (auto simp: step_def write_chunk_def initialize_def stop_def finish_def onopen_def
       emit_connect_def onerror_def onclose_def onmessage_socket split_def)

lemma run_socket: "socket s \<Longrightarrow> socket (snd (run s ins))"
  by (induction ins arbitrary: s) (simp_all add: snd_run_Cons step_socket del: run.simps(2))

lemma finish_flags:
  "finish s = (a, s1) \<Longrightarrow>
     socket s1 = socket s \<and> initialized s1 = initialized s \<and> listening s1 = listening s"
  by (auto simp: finish_def split: if_splits)

lemma finish_listeners_flags:
  "finish_listeners n s = (a, s1) \<Longrightarrow>
     socket s1 = socket s \<and> initialized s1 = initialized s \<and> listening s1 = listening s"
proof (induction n arbitrary: s a s1)
  case 0
  then show ?case by simp
next
  case (Suc n)
  obtain b s2 where f: "finish s = (b, s2)" by (cases "finish s")
  obtain c s3 where g: "finish_listeners n s2 = (c, s3)" by (cases "finish_listeners n s2")
  from Suc.prems f g have "s1 = s3" by simp
  with finish_flags [OF f] Suc.IH [OF g] show ?case by simp
qed

lemma onmessage_initialized: "initialized (snd (onmessage f s)) = initialized s"
  by (auto simp: onmessage_def dispatch_def emitError_def on_listening_report_def
        emit_listening_def split_def split: frame.splits if_splits sum.splits)

lemma step_socket_inv:
  assumes "(initialized s \<or> listening s) \<longrightarrow> socket s"
  shows "(initialized (snd (step s i)) \<or> listening (snd (step s i))) \<longrightarrow> socket (snd (step s i))"
proof (cases i)
  case End_of_input
  obtain a s1 where "finish_listeners (finish_bound s) s = (a, s1)"
    by (cases "finish_listeners (finish_bound s) s")
  with finish_listeners_flags [OF this] End_of_input assms show ?thesis
    by (simp add: step_def on_finish_event_def)
next
  case (Transport_message f)
  with assms onmessage_socket [of f s] onmessage_initialized [of f s] show ?thesis
    by (auto simp: step_def)
qed (use assms in \<open>auto simp: step_def write_chunk_def initialize_def stop_def finish_def onopen_def
       emit_connect_def onerror_def onclose_def split_def\<close>)

lemma write_creates_socket:
  "(initialized s \<or> listening s) \<longrightarrow> socket s \<Longrightarrow> socket (snd (step s (Write c)))"
  by (auto simp: step_def write_chunk_def initialize_def)

lemma write_run_socket:
  "(initialized s \<or> listening s) \<longrightarrow> socket s \<Longrightarrow> Write c \<in> set ins \<Longrightarrow>
     socket (snd (run s ins))"
proof (induction ins arbitrary: s)
  case Nil
  then show ?case by simp
next
  case (Cons i ins)
  show ?case
  proof (cases "i = Write c")
    case True
    then show ?thesis
      using run_socket [OF write_creates_socket [OF Cons.prems(1)], of c ins]
      by (simp add: snd_run_Cons del: run.simps(2))
  next
    case False
    with Cons.prems have "Write c \<in> set ins" by simp
    from Cons.IH [OF step_socket_inv [OF Cons.prems(1)] this] show ?thesis
      by (simp add: snd_run_Cons del: run.simps(2))
  qed
qed

lemma fst_run_append:
  "fst (run s (xs @ ys)) = fst (run s xs) @ fst (run (snd (run s xs)) ys)"
  by (simp add: run_append split_def Let_def)

text \<open>
  Claim C3. The opening message is sent by the transport's open callback and by
  nothing else; the callback sends it once and raises \<^verbatim>\<open>connect\<close> right after it
  (the pending once-listeners for \<^verbatim>\<open>connect\<close> run then). So in a session in which
  a write has created the socket and the transport then reports open, once, the
  opening message is sent exactly once, not before that report, and the
  \<^verbatim>\<open>connect\<close> event follows it immediately; and in no session is it sent more often
  than the transport reports open.
\<close>

theorem opening_message_once_on_open:
  "(Write c \<in> set pre \<and> Transport_open \<notin> set pre \<and> Transport_open \<notin> set post \<longrightarrow>
      count_list (trace (pre @ Transport_open # post)) (Send Opening) = 1
      \<and> Send Opening \<notin> set (trace pre)
      \<and> (\<exists>rest. trace (pre @ Transport_open # post) =
                    trace pre @ Send Opening # Emit Ev_connect # rest))
   \<and> count_list (trace ins) (Send Opening) \<le> count_list ins Transport_open
   \<and> (Send Opening \<in> set (fst (step s i)) \<longrightarrow> i = Transport_open \<and> socket s)
   \<and> (socket s \<longrightarrow>
        step s Transport_open =
          (Send Opening # Emit Ev_connect # replicate (once_connect s) (Send Stop_msg),
           s\<lparr> once_connect := 0 \<rparr>))"
proof (intro conjI impI)
  assume h: "Write c \<in> set pre \<and> Transport_open \<notin> set pre \<and> Transport_open \<notin> set post"
  define s1 where "s1 = snd (run init pre)"
  have sock: "socket s1" using h write_run_socket [of init c pre] by (simp add: s1_def init_def)
  define s2 where "s2 = s1\<lparr> once_connect := 0 \<rparr>"
  define rest where "rest = replicate (once_connect s1) (Send Stop_msg) @ fst (run s2 post)"
  have st: "step s1 Transport_open =
              (Send Opening # Emit Ev_connect # replicate (once_connect s1) (Send Stop_msg), s2)"
    using sock by (simp add: step_def onopen_def emit_connect_def s2_def)
  have tr: "trace (pre @ Transport_open # post) = trace pre @ Send Opening # Emit Ev_connect # rest"
    by (simp add: trace_def fst_run_append fst_run_Cons st rest_def s1_def [symmetric] del: run.simps(2))
  have pre: "Send Opening \<notin> set (trace pre)"
    using h run_no_opening [of pre init] by (simp add: trace_def)
  have post: "Send Opening \<notin> set rest"
    using h run_no_opening [of post s2] by (simp add: rest_def)
  from pre show "Send Opening \<notin> set (trace pre)" .
  from tr show "\<exists>rest. trace (pre @ Transport_open # post) =
                    trace pre @ Send Opening # Emit Ev_connect # rest" by blast
  from pre post show "count_list (trace (pre @ Transport_open # post)) (Send Opening) = 1"
    by (simp add: tr count_list_0_iff)
next
  show "count_list (trace ins) (Send Opening) \<le> count_list ins Transport_open"
    by (simp add: trace_def run_opening_count)
next
  assume "Send Opening \<in> set (fst (step s i))"
  then show "i = Transport_open" "socket s" using step_send_opening by blast+
next
  assume "socket s"
  then show "step s Transport_open =
          (Send Opening # Emit Ev_connect # replicate (once_connect s) (Send Stop_msg),
           s\<lparr> once_connect := 0 \<rparr>)"
    by (simp add: step_def onopen_def emit_connect_def)
qed

theorem opening_message_once_on_open_witness:
  "Write [82] \<in> set [Call_finish, Write [82]]
   \<and> Transport_open \<notin> set [Call_finish, Write [82]]
   \<and> Transport_open \<notin> set [Transport_message (Json listening_report)]
   \<and> socket (final_state [Call_finish, Write [82]])
   \<and> Send Opening \<in> set (fst (step (final_state [Call_finish, Write [82]]) Transport_open))
   \<and> trace ([Call_finish, Write [82]] @ Transport_open # [Transport_message (Json listening_report)])
       = [New_socket, Send Opening, Emit Ev_connect, Send Stop_msg,
          Emit (Ev_message listening_report), Emit Ev_listening, Send (Audio [82]), After_send]
   \<and> count_list (trace ([Call_finish, Write [82]] @ Transport_open
                         # [Transport_message (Json listening_report)])) (Send Opening) = 1"
  using opening_message_once_on_open
          [of "[82]" "[Call_finish, Write [82]]" "[Transport_message (Json listening_report)]"
              "[]" "final_state [Call_finish, Write [82]]" Transport_open]
  by (simp add: session_defs)


section \<open>The listening flag and the end of the output\<close>

text \<open>
  Claim C4, as amended. A listening report of the service that arrives while the
  listening flag is set clears the flag, pushes end-of-output once and closes the
  transport, whether or not the stop message has been sent. A listening report that
  arrives while the flag is clear, also one that follows such a transition, sets the
  flag and raises \<^verbatim>\<open>listening\<close>; it is not ignored. The flag is also cleared by a
  transport error, which pushes nothing, and by the transport closing while the flag
  is set, which pushes end-of-output.
\<close>

theorem listening_report_toggles:
  "(is_listening_report dat \<and> listening s \<longrightarrow>
      onmessage (Json dat) s =
        ([Emit (Ev_message dat), Push_null, Close_socket], s\<lparr> listening := False \<rparr>))
   \<and> (is_listening_report dat \<and> \<not> listening s \<longrightarrow>
        onmessage (Json dat) s =
          (Emit (Ev_message dat) # Emit Ev_listening
             # concat (map (\<lambda>c. [Send (Audio c), After_send]) (once_listening s)),
           s\<lparr> listening := True, once_listening := [] \<rparr>))
   \<and> onerror s = ([Emit Ev_transport_error], s\<lparr> listening := False \<rparr>)
   \<and> (listening s \<longrightarrow>
        onclose code reason s =
          ([Push_null, Emit (Ev_close code reason)], s\<lparr> listening := False \<rparr>))
   \<and> (\<not> listening s \<longrightarrow> onclose code reason s = ([Emit (Ev_close code reason)], s))"
  by (simp add: is_listening_report_onmessage on_listening_report_def emit_listening_def
        onerror_def onclose_def)

theorem listening_report_toggles_witness:
  "is_listening_report listening_report
   \<and> \<not> listening (final_state [Write [82], Transport_open])
   \<and> listening (final_state [Write [82], Transport_open, Transport_message (Json listening_report)])
   \<and> onmessage (Json listening_report) (final_state [Write [82], Transport_open]) =
       ([Emit (Ev_message listening_report), Emit Ev_listening, Send (Audio [82]), After_send],
        final_state [Write [82], Transport_open, Transport_message (Json listening_report)])
   \<and> fst (onmessage (Json listening_report)
         (final_state [Write [82], Transport_open, Transport_message (Json listening_report)])) =
       [Emit (Ev_message listening_report), Push_null, Close_socket]
   \<and> fst (onclose 1000 ''''
         (final_state [Write [82], Transport_open, Transport_message (Json listening_report)])) =
       [Push_null, Emit (Ev_close 1000 '''')]
   \<and> fst (onclose 1000 '''' (final_state [Write [82], Transport_open])) = [Emit (Ev_close 1000 '''')]"
  using listening_report_toggles
          [of listening_report "final_state [Write [82], Transport_open]" 1000 "''''"]
        listening_report_toggles
          [of listening_report
              "final_state [Write [82], Transport_open, Transport_message (Json listening_report)]"
              1000 "''''"]
  by (simp add: session_defs)

text \<open>
  Claim C4 as first stated does not hold. After a write, the transport opening and two
  listening reports, with no stop message sent, the flag has gone from set to clear,
  end-of-output has been pushed and the transport closed. One more listening report
  sets the flag again instead of being ignored. And a transport error clears the flag
  with no listening report at all.
\<close>

theorem listening_report_toggles_counterexample:
  "trace [Write [82], Transport_open, Transport_message (Json listening_report),
          Transport_message (Json listening_report)] =
     [New_socket, Send Opening, Emit Ev_connect,
      Emit (Ev_message listening_report), Emit Ev_listening, Send (Audio [82]), After_send,
      Emit (Ev_message listening_report), Push_null, Close_socket]
   \<and> \<not> listening (final_state [Write [82], Transport_open, Transport_message (Json listening_report),
          Transport_message (Json listening_report)])
   \<and> listening (final_state [Write [82], Transport_open, Transport_message (Json listening_report),
          Transport_message (Json listening_report), Transport_message (Json listening_report)])
   \<and> listening (final_state [Write [82], Transport_open, Transport_message (Json listening_report)])
   \<and> \<not> listening (final_state [Write [82], Transport_open, Transport_message (Json listening_report),
          Transport_error])"
  by (simp add: session_defs)


section \<open>Results frames\<close>

lemma each_result_typed:
  "each_result (result_json r) =
     (Emit (Ev_result (result_json r))
        # (if final r then (case alternatives r of
                              Some (t # ts) \<Rightarrow> [Push (Some (JStr t))]
                            | _ \<Rightarrow> [])
           else []),
      if final r \<and> alternatives r = Some [] then Some TypeError else None)"
  by (cases "alternatives r")
     (auto simp: each_result_def result_json_def alternative_json_def push_transcript_def
        js_truthy_def split: list.splits)

lemma forEach_result_typed_throws:
  "snd (forEach_result (map result_json rs)) =
     (if \<exists>r\<in>set rs. final r \<and> alternatives r = Some [] then Some TypeError else None)"
  by (induction rs) (auto simp: each_result_typed split_def)

lemma forEach_result_no_uncaught: "Uncaught e \<notin> set (fst (forEach_result rs))"
proof (induction rs)
  case Nil
  show ?case by simp
next
  case (Cons r rs)
  have "Uncaught e \<notin> set (fst (push_transcript alts))" for alts
    by (simp add: push_transcript_def split: sum.splits option.splits)
  then have "Uncaught e \<notin> set (fst (each_result r))"
    by (simp add: each_result_def split_def Let_def split: sum.splits option.splits)
  with Cons show ?case
    by (cases "each_result r") (auto simp: split_def Let_def split: option.splits)
qed

lemma takes_results_branch_onmessage:
  "takes_results_branch dat res \<Longrightarrow>
     onmessage (Json dat) s = (Emit (Ev_message dat) # on_results res, s)"
  by (auto simp: takes_results_branch_def onmessage_def dispatch_def split: sum.splits)

lemma on_results_typed_uncaught:
  "Uncaught TypeError \<in> set (on_results (Some (JArr (map result_json rs))))
     \<longleftrightarrow> (\<exists>r\<in>set rs. final r \<and> alternatives r = Some [])"
proof -
  obtain a x where f: "forEach_result (map result_json rs) = (a, x)"
    by (cases "forEach_result (map result_json rs)")
  from forEach_result_no_uncaught [of TypeError "map result_json rs"] f
  have a: "Uncaught TypeError \<notin> set a" by simp
  from forEach_result_typed_throws [of rs] f
  have x: "x = (if \<exists>r\<in>set rs. final r \<and> alternatives r = Some [] then Some TypeError else None)"
    by simp
  show ?thesis
  proof (cases "\<exists>r\<in>set rs. final r \<and> alternatives r = Some []")
    case True
    with x f show ?thesis by (simp add: on_results_def)
  next
    case False
    with x f a show ?thesis by (simp add: on_results_def)
  qed
qed

text \<open>
  Claim C5. Every result of a results frame should get its own \<^verbatim>\<open>result\<close> event,
  in order, and a final result should contribute a chunk when it has at least one
  alternative. The guard before the push tests only that \<^verbatim>\<open>result.alternatives\<close>
  is truthy. When a final result carries an empty array of alternatives, the read of
  the first transcript throws out of the loop after that result's event, and the
  result that follows gets no \<^verbatim>\<open>result\<close> event at all. With one alternative in the
  first result, the same frame gives both events and the chunk.
\<close>

theorem empty_alternatives_stops_result_events:
  "fst (onmessage (Json (results_update [\<lparr>final = True, alternatives = Some []\<rparr>,
                                         \<lparr>final = False, alternatives = Some [''hello'']\<rparr>]))
          init) =
     [Emit (Ev_message (results_update [\<lparr>final = True, alternatives = Some []\<rparr>,
                                        \<lparr>final = False, alternatives = Some [''hello'']\<rparr>])),
      Emit (Ev_results (Some (JArr (map result_json [\<lparr>final = True, alternatives = Some []\<rparr>,
                                        \<lparr>final = False, alternatives = Some [''hello'']\<rparr>])))),
      Emit (Ev_result (result_json \<lparr>final = True, alternatives = Some []\<rparr>)),
      Uncaught TypeError]
   \<and> fst (onmessage (Json (results_update [\<lparr>final = True, alternatives = Some [''hello world'']\<rparr>,
                                            \<lparr>final = False, alternatives = Some [''hello'']\<rparr>]))
          init) =
     [Emit (Ev_message (results_update [\<lparr>final = True, alternatives = Some [''hello world'']\<rparr>,
                                        \<lparr>final = False, alternatives = Some [''hello'']\<rparr>])),
      Emit (Ev_results (Some (JArr (map result_json
                                        [\<lparr>final = True, alternatives = Some [''hello world'']\<rparr>,
                                         \<lparr>final = False, alternatives = Some [''hello'']\<rparr>])))),
      Emit (Ev_result (result_json \<lparr>final = True, alternatives = Some [''hello world'']\<rparr>)),
      Push (Some (JStr ''hello world'')),
      Emit (Ev_result (result_json \<lparr>final = False, alternatives = Some [''hello'']\<rparr>))]"
  by (simp add: session_defs)

text \<open>
  Claim C10. The guard before the push tests only that \<^verbatim>\<open>result.alternatives\<close> is
  truthy, which an empty array is: for a result whose \<^verbatim>\<open>final\<close> is truthy and whose
  \<^verbatim>\<open>alternatives\<close> is the empty array, the guard passes and the read of
  \<^verbatim>\<open>alternatives[0].transcript\<close> throws. So for a frame that takes the results
  branch with an array of results, no exception leaves the handler if and only if
  every final result that has alternatives has at least one.
\<close>

theorem guard_tests_presence_not_emptiness:
  "(js_get r ''final'' = Inr fin \<and> js_truthy fin
      \<and> js_get r ''alternatives'' = Inr (Some (JArr [])) \<longrightarrow>
        each_result r = ([Emit (Ev_result r)], Some TypeError))
   \<and> (takes_results_branch dat (Some (JArr (map result_json rs))) \<longrightarrow>
        (Uncaught TypeError \<notin> set (fst (onmessage (Json dat) s))
           \<longleftrightarrow> (\<forall>r\<in>set rs. final r \<longrightarrow> alternatives r \<noteq> Some [])))"
proof (intro conjI impI)
  assume "js_get r ''final'' = Inr fin \<and> js_truthy fin
      \<and> js_get r ''alternatives'' = Inr (Some (JArr []))"
  then show "each_result r = ([Emit (Ev_result r)], Some TypeError)"
    by (simp add: each_result_def push_transcript_def)
next
  assume "takes_results_branch dat (Some (JArr (map result_json rs)))"
  then show "Uncaught TypeError \<notin> set (fst (onmessage (Json dat) s))
           \<longleftrightarrow> (\<forall>r\<in>set rs. final r \<longrightarrow> alternatives r \<noteq> Some [])"
    using on_results_typed_uncaught [of rs]
    by (simp add: takes_results_branch_onmessage)
qed

theorem guard_tests_presence_not_emptiness_witness:
  "js_get (result_json \<lparr>final = True, alternatives = Some []\<rparr>) ''final'' = Inr (Some (JBool True))
   \<and> js_truthy (Some (JBool True))
   \<and> js_get (result_json \<lparr>final = True, alternatives = Some []\<rparr>) ''alternatives''
       = Inr (Some (JArr []))
   \<and> each_result (result_json \<lparr>final = True, alternatives = Some []\<rparr>) =
       ([Emit (Ev_result (result_json \<lparr>final = True, alternatives = Some []\<rparr>))], Some TypeError)
   \<and> takes_results_branch (results_update [\<lparr>final = True, alternatives = Some []\<rparr>])
       (Some (JArr (map result_json [\<lparr>final = True, alternatives = Some []\<rparr>])))
   \<and> Uncaught TypeError
       \<in> set (fst (onmessage (Json (results_update [\<lparr>final = True, alternatives = Some []\<rparr>])) init))
   \<and> takes_results_branch (results_update [\<lparr>final = True, alternatives = Some [''hello'']\<rparr>])
       (Some (JArr (map result_json [\<lparr>final = True, alternatives = Some [''hello'']\<rparr>])))
   \<and> Uncaught TypeError
       \<notin> set (fst (onmessage (Json (results_update [\<lparr>final = True, alternatives = Some [''hello'']\<rparr>]))
                     init))"
  using guard_tests_presence_not_emptiness
          [of "result_json \<lparr>final = True, alternatives = Some []\<rparr>" "Some (JBool True)"
              "results_update [\<lparr>final = True, alternatives = Some []\<rparr>]"
              "[\<lparr>final = True, alternatives = Some []\<rparr>]" init]
        guard_tests_presence_not_emptiness
          [of "result_json \<lparr>final = True, alternatives = Some []\<rparr>" "Some (JBool True)"
              "results_update [\<lparr>final = True, alternatives = Some [''hello'']\<rparr>]"
              "[\<lparr>final = True, alternatives = Some [''hello'']\<rparr>]" init]
  by (simp add: takes_results_branch_def results_update_def result_json_def js_truthy_def)


section \<open>The aggregator: error propagation\<close>

text \<open>The defining equations, for evaluating the aggregator on concrete operations.\<close>

lemmas aggregator_defs =
  agg_run_def ResultStream_def propagateEvent_def propagateErrorsFrom_def
  propagateEventsFrom_def reraised_def Let_def

lemma agg_run_snoc: "agg_run (ops @ [x]) = agg_step (agg_run ops) x"
  by (simp add: agg_run_def)

lemma agg_run_Nil: "agg_run [] = ResultStream"
  by (simp add: agg_run_def)

lemma count_list_map_pair:
  "count_list (map (\<lambda>src. (src, n)) xs) (s, m) = (if n = m then count_list xs s else 0)"
  by (induction xs) auto

lemma count_list_map_name:
  "count_list (map (\<lambda>n. (src, n)) ns) (s, m) = (if src = s then count_list ns m else 0)"
  by (induction ns) auto

lemma error_propagated_iff:
  "''error'' \<in> set (propagatedEvents (agg_run ops)) \<longleftrightarrow> Add_listener ''error'' \<in> set ops"
proof (induction ops rule: rev_induct)
  case Nil
  show ?case by (simp add: agg_run_Nil ResultStream_def)
next
  case (snoc x ops)
  show ?case
  proof (cases x)
    case (Add_listener n)
    with snoc show ?thesis
      by (auto simp: agg_run_snoc propagateEvent_def Let_def)
  next
    case (Propagate_errors_from s)
    with snoc show ?thesis by (simp add: agg_run_snoc propagateErrorsFrom_def)
  next
    case (Propagate_events_from s)
    with snoc show ?thesis by (simp add: agg_run_snoc propagateEventsFrom_def)
  qed
qed

lemma errorSources_count:
  "count_list (errorSources (agg_run ops)) src = count_list ops (Propagate_errors_from src)"
proof (induction ops rule: rev_induct)
  case Nil
  show ?case by (simp add: agg_run_Nil ResultStream_def)
next
  case (snoc x ops)
  then show ?case
    by (cases x) (auto simp: agg_run_snoc propagateEvent_def propagateErrorsFrom_def
                    propagateEventsFrom_def Let_def)
qed

lemma allEventSources_count:
  "count_list (allEventSources (agg_run ops)) src = count_list ops (Propagate_events_from src)"
proof (induction ops rule: rev_induct)
  case Nil
  show ?case by (simp add: agg_run_Nil ResultStream_def)
next
  case (snoc x ops)
  then show ?case
    by (cases x) (auto simp: agg_run_snoc propagateEvent_def propagateErrorsFrom_def
                    propagateEventsFrom_def Let_def)
qed

lemma subscribed_only_propagated:
  "(src, n) \<in> set (subscriptions (agg_run ops)) \<Longrightarrow> n \<in> set (propagatedEvents (agg_run ops))"
proof (induction ops rule: rev_induct)
  case Nil
  then show ?case by (simp add: agg_run_Nil ResultStream_def)
next
  case (snoc x ops)
  then show ?case
    by (cases x) (auto simp: agg_run_snoc propagateEvent_def propagateErrorsFrom_def
                    propagateEventsFrom_def Let_def split: if_splits)
qed

lemma error_source_subscribed:
  "src \<in> set (errorSources (agg_run ops)) \<Longrightarrow> ''error'' \<in> set (propagatedEvents (agg_run ops))
     \<Longrightarrow> (src, ''error'') \<in> set (subscriptions (agg_run ops))"
proof (induction ops rule: rev_induct)
  case Nil
  then show ?case by (simp add: agg_run_Nil ResultStream_def)
next
  case (snoc x ops)
  then show ?case
    by (cases x) (auto simp: agg_run_snoc propagateEvent_def propagateErrorsFrom_def
                    propagateEventsFrom_def Let_def split: if_splits)
qed

lemma error_reraised_count:
  "Propagate_events_from src \<notin> set ops \<Longrightarrow>
     reraised (agg_run ops) src ''error'' =
       (if Add_listener ''error'' \<in> set ops then count_list ops (Propagate_errors_from src) else 0)"
proof (induction ops rule: rev_induct)
  case Nil
  show ?case by (simp add: agg_run_Nil ResultStream_def reraised_def)
next
  case (snoc x ops)
  then have IH: "reraised (agg_run ops) src ''error'' =
       (if Add_listener ''error'' \<in> set ops then count_list ops (Propagate_errors_from src) else 0)"
    and nope: "Propagate_events_from src \<notin> set ops" by simp_all
  have noall: "count_list (allEventSources (agg_run ops)) src = 0"
    using nope by (simp add: allEventSources_count count_list_0_iff)
  show ?case
  proof (cases x)
    case (Add_listener n)
    show ?thesis
    proof (cases "n = ''error''")
      case True
      with Add_listener IH noall error_propagated_iff [of ops] show ?thesis
        by (auto simp: agg_run_snoc propagateEvent_def Let_def reraised_def
              count_list_map_pair errorSources_count)
    next
      case False
      with Add_listener IH show ?thesis
        by (auto simp: agg_run_snoc propagateEvent_def Let_def reraised_def count_list_map_pair)
    qed
  next
    case (Propagate_errors_from s)
    with IH error_propagated_iff [of ops] show ?thesis
      by (auto simp: agg_run_snoc propagateErrorsFrom_def reraised_def)
  next
    case (Propagate_events_from s)
    with snoc.prems have "s \<noteq> src" by auto
    with Propagate_events_from IH show ?thesis
      by (auto simp: agg_run_snoc propagateEventsFrom_def reraised_def count_list_map_name)
  qed
qed

text \<open>
  Claim C9. For a source registered with \<^verbatim>\<open>propagateErrorsFrom\<close>, the aggregator
  re-raises the source's \<^verbatim>\<open>error\<close> events exactly when a listener for \<^verbatim>\<open>error\<close>
  has been attached to the aggregator, be it before the registration or after it; as
  this holds after every operation, the wiring is in place as soon as both have
  happened. In particular a listener attached before any source is registered makes
  the errors of sources registered afterwards come through. When the source is not
  also registered with \<^verbatim>\<open>propagateEventsFrom\<close>, one error of the source is
  re-raised once for each time the source was registered.
\<close>

theorem errors_propagated_iff_error_listener:
  "(Propagate_errors_from src \<in> set ops \<longrightarrow>
      (0 < reraised (agg_run ops) src ''error'' \<longleftrightarrow> Add_listener ''error'' \<in> set ops))
   \<and> (Propagate_events_from src \<notin> set ops \<longrightarrow>
        reraised (agg_run ops) src ''error'' =
          (if Add_listener ''error'' \<in> set ops then count_list ops (Propagate_errors_from src)
           else 0))"
proof (intro conjI impI)
  assume reg: "Propagate_errors_from src \<in> set ops"
  then have "count_list ops (Propagate_errors_from src) \<noteq> 0"
    by (simp add: count_list_0_iff)
  then have src: "src \<in> set (errorSources (agg_run ops))"
    using errorSources_count [of ops src] by (metis count_list_0_iff)
  show "0 < reraised (agg_run ops) src ''error'' \<longleftrightarrow> Add_listener ''error'' \<in> set ops"
  proof
    assume "0 < reraised (agg_run ops) src ''error''"
    then have "count_list (subscriptions (agg_run ops)) (src, ''error'') \<noteq> 0"
      by (simp add: reraised_def)
    then have "(src, ''error'') \<in> set (subscriptions (agg_run ops))"
      by (metis count_list_0_iff)
    from subscribed_only_propagated [OF this] show "Add_listener ''error'' \<in> set ops"
      by (simp add: error_propagated_iff)
  next
    assume "Add_listener ''error'' \<in> set ops"
    then have "''error'' \<in> set (propagatedEvents (agg_run ops))"
      by (simp add: error_propagated_iff)
    from error_source_subscribed [OF src this]
    have "count_list (subscriptions (agg_run ops)) (src, ''error'') \<noteq> 0"
      by (metis count_list_0_iff)
    then show "0 < reraised (agg_run ops) src ''error''"
      by (simp add: reraised_def)
  qed
next
  assume "Propagate_events_from src \<notin> set ops"
  then show "reraised (agg_run ops) src ''error'' =
          (if Add_listener ''error'' \<in> set ops then count_list ops (Propagate_errors_from src)
           else 0)"
    by (rule error_reraised_count)
qed

theorem errors_propagated_iff_error_listener_witness:
  "Propagate_errors_from 7 \<in> set [Add_listener ''error'', Propagate_errors_from 7]
   \<and> Propagate_events_from 7 \<notin> set [Add_listener ''error'', Propagate_errors_from 7]
   \<and> reraised (agg_run [Add_listener ''error'', Propagate_errors_from 7]) 7 ''error'' = 1
   \<and> reraised (agg_run [Propagate_errors_from 7, Add_listener ''error'']) 7 ''error'' = 1
   \<and> reraised (agg_run [Propagate_errors_from 7, Add_listener ''close'']) 7 ''error'' = 0"
  using errors_propagated_iff_error_listener
          [of 7 "[Add_listener ''error'', Propagate_errors_from 7]"]
        errors_propagated_iff_error_listener
          [of 7 "[Propagate_errors_from 7, Add_listener ''error'']"]
        errors_propagated_iff_error_listener
          [of 7 "[Propagate_errors_from 7, Add_listener ''close'']"]
  by (simp add: aggregator_defs)


end
